theory Spec2Isabelle
  imports Main "HOL-Library.Word" "HOL-Library.Signed_Division"
begin

section \<open>The brainfuck engines of bfin.c and bfvm.c\<close>

text \<open>
  The repository holds two programs, \<^verbatim>\<open>bfin.c\<close> and \<^verbatim>\<open>bfvm.c\<close>. Both keep the tape as
  a doubly linked list of \<^verbatim>\<open>memchunk\<close> structs, the cursor as the globals \<^verbatim>\<open>page\<close> and
  \<^verbatim>\<open>data\<close>, and run a string with \<^verbatim>\<open>execute\<close>, which calls \<^verbatim>\<open>match_right\<close>,
  \<^verbatim>\<open>push_jump\<close>, \<^verbatim>\<open>pop_jump\<close>, \<^verbatim>\<open>overflow_left\<close> and \<^verbatim>\<open>overflow_right\<close>.
  The text of these functions is the same in the two files but for
  \<^item> the allocator of a chunk: \<^verbatim>\<open>alloc_memchunk\<close> of bfin.c takes the byte block from
    \<^verbatim>\<open>malloc\<close>, \<^verbatim>\<open>init_memchunk\<close> of bfvm.c from \<^verbatim>\<open>calloc\<close>;
  \<^item> the wording of the two diagnostics;
  \<^item> the \<^verbatim>\<open>assert\<close>s of bfin.c, which bfvm.c does not have.
  The model therefore has one definition per source function, with the program as a
  parameter (\<open>prog\<close>) where the two files differ.

  Modelling decisions:
  \<^item> the heap of chunks is an explicit store: a list of \<open>memchunk\<close> records, a pointer to
    a chunk is its index, \<^verbatim>\<open>NULL\<close> is \<open>None\<close>; chunks are never freed, and an allocation
    appends one;
  \<^item> \<^verbatim>\<open>data\<close> always points into the block of \<^verbatim>\<open>page\<close> (every assignment to it is
    \<^verbatim>\<open>page->mem + k\<close>, \<^verbatim>\<open>++data\<close> or \<^verbatim>\<open>--data\<close>), so it is kept as the offset
    \<^verbatim>\<open>data - page->mem\<close>, an \<open>int\<close>;
  \<^item> a tape byte (\<^verbatim>\<open>char\<close>) is an \<open>8 word\<close>; the counter of \<^verbatim>\<open>match_right\<close>
    (\<^verbatim>\<open>int\<close>) is a \<open>32 word\<close>;
  \<^item> the instruction string is the list of the characters before the terminator; the
    pointer \<^verbatim>\<open>c\<close> is an index into it, and reading at the length gives the terminator;
  \<^item> standard input, standard output and standard error are lists carried in the state;
  \<^item> \<^verbatim>\<open>malloc\<close> and \<^verbatim>\<open>calloc\<close> are taken to succeed (the \<^verbatim>\<open>exit(1)\<close> branches on an
    allocation failure are not modelled).
\<close>

subsection \<open>Data\<close>

type_synonym byte = "8 word"

type_synonym addr = nat

text \<open>\<^verbatim>\<open>struct memchunk_t { next; prev; mem; }\<close>\<close>

record memchunk =
  nxt :: "addr option"
  prev :: "addr option"
  mem :: "byte list"

text \<open>
  The process-wide state: the globals \<^verbatim>\<open>chunklen\<close>, \<^verbatim>\<open>page\<close> and \<^verbatim>\<open>data\<close>, the
  allocated chunks, and the three standard streams.
\<close>

record machine =
  chunklen :: int
  heap :: "memchunk list"
  page :: addr
  data :: int
  stdin :: "byte list"
  stdout :: "byte list"
  stderr :: "string list"

text \<open>
  Which program runs. For bfin.c the parameter gives what \<^verbatim>\<open>malloc\<close> hands out: byte
  \<open>i\<close> of the block allocated for the chunk at address \<open>a\<close> is \<open>junk a i\<close>.
\<close>

datatype prog = Bfin "addr \<Rightarrow> nat \<Rightarrow> byte" | Bfvm

text \<open>
  How one call of \<^verbatim>\<open>execute\<close> ends: it returns at the terminator (or at once for a
  \<^verbatim>\<open>NULL\<close> string), it returns early after printing a diagnostic, or the process dies
  (a failed \<^verbatim>\<open>assert\<close> in bfin.c, a \<^verbatim>\<open>NULL\<close> dereference in bfvm.c).
\<close>

datatype outcome = Returned | Abandoned | Crashed

text \<open>
  What one pass through the \<^verbatim>\<open>switch\<close> leaves: \<^verbatim>\<open>break\<close> with the values of \<^verbatim>\<open>c\<close>,
  \<^verbatim>\<open>stack\<close> and the globals (the \<^verbatim>\<open>for\<close> then does \<^verbatim>\<open>++c\<close>), or the end of the call.
\<close>

datatype flow = Break nat "nat list" machine | Stop outcome machine

subsection \<open>Chunks\<close>

text \<open>bfin.c, \<^verbatim>\<open>alloc_memchunk\<close>: \<^verbatim>\<open>chunk->mem = malloc(chunklen)\<close>, both links \<^verbatim>\<open>NULL\<close>.\<close>

definition alloc_memchunk :: "(addr \<Rightarrow> nat \<Rightarrow> byte) \<Rightarrow> machine \<Rightarrow> addr \<times> machine" where
  "alloc_memchunk junk s =
     (let chunk = length (heap s)
      in (chunk, s\<lparr>heap := heap s @
            [\<lparr>nxt = None, prev = None, mem = map (junk chunk) [0..<nat (chunklen s)]\<rparr>]\<rparr>))"

text \<open>bfvm.c, \<^verbatim>\<open>init_memchunk\<close>: \<^verbatim>\<open>chunk->mem = calloc(1, chunklen)\<close>, both links \<^verbatim>\<open>NULL\<close>.\<close>

definition init_memchunk :: "machine \<Rightarrow> addr \<times> machine" where
  "init_memchunk s =
     (let chunk = length (heap s)
      in (chunk, s\<lparr>heap := heap s @
            [\<lparr>nxt = None, prev = None, mem = replicate (nat (chunklen s)) 0\<rparr>]\<rparr>))"

fun new_chunk :: "prog \<Rightarrow> machine \<Rightarrow> addr \<times> machine" where
  "new_chunk (Bfin junk) s = alloc_memchunk junk s"
| "new_chunk Bfvm s = init_memchunk s"

text \<open>
  \<^verbatim>\<open>overflow_left\<close>: \<^verbatim>\<open>new = alloc(); chunk->prev = new; new->next = chunk; return new\<close>.
  The asserts of bfin.c (\<^verbatim>\<open>chunk != NULL\<close>, \<^verbatim>\<open>chunk->prev == NULL\<close>) hold at its only call,
  which is guarded by \<^verbatim>\<open>page->prev == NULL\<close>.
\<close>

definition overflow_left :: "prog \<Rightarrow> addr \<Rightarrow> machine \<Rightarrow> addr \<times> machine" where
  "overflow_left p chunk s =
     (let (new, s1) = new_chunk p s;
          h1 = (heap s1)[chunk := (heap s1 ! chunk)\<lparr>prev := Some new\<rparr>];
          h2 = h1[new := (h1 ! new)\<lparr>nxt := Some chunk\<rparr>]
      in (new, s1\<lparr>heap := h2\<rparr>))"

text \<open>\<^verbatim>\<open>overflow_right\<close>: \<^verbatim>\<open>new = alloc(); chunk->next = new; new->prev = chunk; return new\<close>.\<close>

definition overflow_right :: "prog \<Rightarrow> addr \<Rightarrow> machine \<Rightarrow> addr \<times> machine" where
  "overflow_right p chunk s =
     (let (new, s1) = new_chunk p s;
          h1 = (heap s1)[chunk := (heap s1 ! chunk)\<lparr>nxt := Some new\<rparr>];
          h2 = h1[new := (h1 ! new)\<lparr>prev := Some chunk\<rparr>]
      in (new, s1\<lparr>heap := h2\<rparr>))"

text \<open>
  Start-up: \<^verbatim>\<open>init_bfin\<close> of bfin.c (margin 32) and the head of \<^verbatim>\<open>main\<close> of bfvm.c
  (margin 8). \<open>pagesize\<close> is what \<^verbatim>\<open>sysconf(_SC_PAGESIZE)\<close> returns; the division of C
  truncates (\<open>sdiv\<close>).
\<close>

definition margin :: "prog \<Rightarrow> int" where
  "margin p = (case p of Bfin junk \<Rightarrow> 32 | Bfvm \<Rightarrow> 8)"

definition init :: "prog \<Rightarrow> int \<Rightarrow> byte list \<Rightarrow> machine" where
  "init p pagesize input =
     (let cl = pagesize - margin p;
          cl = (if cl < 0 then cl + margin p else cl);
          s0 = \<lparr>chunklen = cl, heap = [], page = 0, data = 0,
                stdin = input, stdout = [], stderr = []\<rparr>;
          (pg, s1) = new_chunk p s0
      in s1\<lparr>page := pg, data := cl sdiv 2\<rparr>)"

subsection \<open>The byte under the cursor and the streams\<close>

text \<open>\<^verbatim>\<open>*data\<close> as a value.\<close>

definition deref :: "machine \<Rightarrow> byte" where
  "deref s = mem (heap s ! page s) ! nat (data s)"

text \<open>\<^verbatim>\<open>*data = v\<close>.\<close>

definition assign :: "byte \<Rightarrow> machine \<Rightarrow> machine" where
  "assign v s =
     s\<lparr>heap := (heap s)[page s :=
          (heap s ! page s)\<lparr>mem := (mem (heap s ! page s))[nat (data s) := v]\<rparr>]\<rparr>"

text \<open>\<^verbatim>\<open>putchar(*data)\<close> writes the byte to standard output.\<close>

definition putchar :: "byte \<Rightarrow> machine \<Rightarrow> machine" where
  "putchar b s = s\<lparr>stdout := stdout s @ [b]\<rparr>"

text \<open>\<^verbatim>\<open>getchar()\<close> returns the next byte as an \<^verbatim>\<open>int\<close>, or \<^verbatim>\<open>EOF\<close> (-1) at the end.\<close>

definition getchar :: "machine \<Rightarrow> int \<times> machine" where
  "getchar s = (case stdin s of [] \<Rightarrow> (- 1, s) | b # bs \<Rightarrow> (uint b, s\<lparr>stdin := bs\<rparr>))"

text \<open>\<^verbatim>\<open>fprintf(stderr, msg)\<close> and \<^verbatim>\<open>fputs(msg, stderr)\<close>.\<close>

definition report :: "string \<Rightarrow> machine \<Rightarrow> machine" where
  "report msg s = s\<lparr>stderr := stderr s @ [msg]\<rparr>"

definition no_right_msg :: "prog \<Rightarrow> string" where
  "no_right_msg p = (case p of
       Bfin junk \<Rightarrow> ''Input Error: '' @ [CHR 0x27] @ ''['' @ [CHR 0x27] @ '' with no matching ''
                      @ [CHR 0x27] @ '']'' @ [CHR 0x27, CHR 0x0A]
     | Bfvm \<Rightarrow> ''Error: '' @ [CHR 0x27] @ ''['' @ [CHR 0x27] @ '' with no matching ''
                      @ [CHR 0x27] @ '']'' @ [CHR 0x27, CHR 0x0A])"

definition no_left_msg :: "prog \<Rightarrow> string" where
  "no_left_msg p = (case p of
       Bfin junk \<Rightarrow> ''Input Error: '' @ [CHR 0x27] @ '']'' @ [CHR 0x27] @ '' with no matching ''
                      @ [CHR 0x27] @ ''['' @ [CHR 0x27, CHR 0x0A]
     | Bfvm \<Rightarrow> ''Error: '' @ [CHR 0x27] @ '']'' @ [CHR 0x27] @ '' with no matching ''
                      @ [CHR 0x27] @ ''['' @ [CHR 0x27, CHR 0x0A])"

subsection \<open>The jump stack\<close>

text \<open>
  A \<^verbatim>\<open>jumpstack\<close> list is the list of its \<^verbatim>\<open>leftbracket\<close> fields, top first; \<^verbatim>\<open>NULL\<close>
  is the empty list. \<^verbatim>\<open>push_jump\<close> conses; its assert (\<^verbatim>\<open>leftbracket != NULL\<close>) holds
  since it is called with \<^verbatim>\<open>c\<close>. So no record holds a \<^verbatim>\<open>NULL\<close> bracket, and the test
  \<^verbatim>\<open>stack == NULL || stack->leftbracket == NULL\<close> of \<^verbatim>\<open>execute\<close> is the test for the
  empty list.
\<close>

definition push_jump :: "nat list \<Rightarrow> nat \<Rightarrow> nat list" where
  "push_jump stack leftbracket = leftbracket # stack"

text \<open>
  \<^verbatim>\<open>pop_jump\<close> returns \<^verbatim>\<open>stack->next\<close>. On \<^verbatim>\<open>NULL\<close> bfin.c fails
  \<^verbatim>\<open>assert(stack != NULL)\<close> and bfvm.c dereferences \<^verbatim>\<open>NULL\<close>: \<open>None\<close>.
\<close>

definition pop_jump :: "nat list \<Rightarrow> nat list option" where
  "pop_jump stack = (case stack of [] \<Rightarrow> None | leftbracket # rest \<Rightarrow> Some rest)"

subsection \<open>Bracket matching\<close>

text \<open>\<^verbatim>\<open>*c\<close> for a pointer into the instruction string.\<close>

definition char_at :: "string \<Rightarrow> nat \<Rightarrow> char" where
  "char_at line c = (if c < length line then line ! c else CHR 0x00)"

text \<open>
  The loop of \<^verbatim>\<open>match_right\<close>:
  \<^verbatim>\<open>for (...; *c != '\0'; ++c) { if (*c == '[') ++count; else if (*c == ']') { if (count != 0) --count; else return c; } } return NULL;\<close>
\<close>

function match_scan :: "string \<Rightarrow> nat \<Rightarrow> 32 word \<Rightarrow> nat option" where
  "match_scan line c count =
     (if char_at line c = CHR 0x00 then None
      else if char_at line c = CHR ''['' then match_scan line (c + 1) (count + 1)
      else if char_at line c = CHR '']'' then
        (if count \<noteq> 0 then match_scan line (c + 1) (count - 1) else Some c)
      else match_scan line (c + 1) count)"
  by pat_completeness auto
termination
  by (relation "measure (\<lambda>(line, c, count). length line - c)")
     (auto simp: char_at_def split: if_splits)

declare match_scan.simps [simp del]

text \<open>\<^verbatim>\<open>match_right(line)\<close>, for the left bracket at index \<open>lb\<close>: \<^verbatim>\<open>c = line + 1; count = 0\<close>.\<close>

definition match_right :: "string \<Rightarrow> nat \<Rightarrow> nat option" where
  "match_right line lb = match_scan line (lb + 1) 0"

subsection \<open>Execution\<close>

text \<open>The case \<^verbatim>\<open>'>'\<close> of the switch.\<close>

definition advance :: "prog \<Rightarrow> machine \<Rightarrow> machine" where
  "advance p s =
     (let s1 = s\<lparr>data := data s + 1\<rparr>
      in if data s1 \<ge> chunklen s1 then
           (let (pg, s2) = (case nxt (heap s1 ! page s1) of
                               None \<Rightarrow> overflow_right p (page s1) s1
                             | Some n \<Rightarrow> (n, s1))
            in s2\<lparr>page := pg, data := 0\<rparr>)
         else s1)"

text \<open>The case \<^verbatim>\<open>'<'\<close> of the switch.\<close>

definition retreat :: "prog \<Rightarrow> machine \<Rightarrow> machine" where
  "retreat p s =
     (let s1 = s\<lparr>data := data s - 1\<rparr>
      in if data s1 < 0 then
           (let (pg, s2) = (case prev (heap s1 ! page s1) of
                               None \<Rightarrow> overflow_left p (page s1) s1
                             | Some n \<Rightarrow> (n, s1))
            in s2\<lparr>page := pg, data := chunklen s2 - 1\<rparr>)
         else s1)"

text \<open>The body of the \<^verbatim>\<open>for\<close> loop of \<^verbatim>\<open>execute\<close>: the \<^verbatim>\<open>switch (*c)\<close>.\<close>

definition execute_switch :: "prog \<Rightarrow> string \<Rightarrow> nat \<Rightarrow> nat list \<Rightarrow> machine \<Rightarrow> flow" where
  "execute_switch p line c stack s =
     (let ch = char_at line c in
      if ch = CHR ''>'' then Break c stack (advance p s)
      else if ch = CHR ''<'' then Break c stack (retreat p s)
      else if ch = CHR ''+'' then Break c stack (assign (deref s + 1) s)
      else if ch = CHR ''-'' then Break c stack (assign (deref s - 1) s)
      else if ch = CHR ''.'' then Break c stack (putchar (deref s) s)
      else if ch = CHR '','' then
        (let (v, s1) = getchar s in Break c stack (assign (word_of_int v) s1))
      else if ch = CHR ''['' then
        (let right = match_right line c in
         if deref s = 0 then
           (case right of
              None \<Rightarrow> Stop Abandoned (report (no_right_msg p) s)
            | Some r \<Rightarrow> Break r stack s)
         else
           (case right of
              Some r \<Rightarrow> Break c (push_jump stack c) s
            | None \<Rightarrow> Break c stack s))
      else if ch = CHR '']'' then
        (if deref s \<noteq> 0 then
           (case stack of
              [] \<Rightarrow> Stop Abandoned (report (no_left_msg p) s)
            | leftbracket # rest \<Rightarrow> Break leftbracket stack s)
         else
           (case pop_jump stack of
              None \<Rightarrow> Stop Crashed s
            | Some stack' \<Rightarrow> Break c stack' s))
      else Break c stack s)"

text \<open>
  \<^verbatim>\<open>for (c = ...; *c != '\0'; ++c) switch ...\<close>. The loop need not end, so the model is a
  partial function: \<open>None\<close> is a run that never returns.
\<close>

partial_function (option) execute_loop ::
    "prog \<Rightarrow> string \<Rightarrow> nat \<Rightarrow> nat list \<Rightarrow> machine \<Rightarrow> (outcome \<times> machine) option" where
  "execute_loop p line c stack s =
     (if char_at line c = CHR 0x00 then Some (Returned, s)
      else (case execute_switch p line c stack s of
              Break c' stack' s' \<Rightarrow> execute_loop p line (c' + 1) stack' s'
            | Stop r s' \<Rightarrow> Some (r, s')))"

declare execute_loop.simps [code]

text \<open>
  \<^verbatim>\<open>execute(line)\<close>: \<^verbatim>\<open>if (line == NULL) return;\<close>, then the loop from \<^verbatim>\<open>c = line\<close> with
  an empty jump stack. (The asserts of bfin.c before it, \<^verbatim>\<open>page != NULL\<close> and
  \<^verbatim>\<open>data != NULL\<close>, hold after start-up; \<^verbatim>\<open>destroy_jumpstack\<close> at the end only frees.)
\<close>

definition execute :: "prog \<Rightarrow> string option \<Rightarrow> machine \<Rightarrow> (outcome \<times> machine) option" where
  "execute p line s =
     (case line of None \<Rightarrow> Some (Returned, s) | Some l \<Rightarrow> execute_loop p l 0 [] s)"

section \<open>Invariant and vocabulary of the proofs\<close>

text \<open>The byte block a new chunk gets: from \<^verbatim>\<open>malloc\<close> in bfin.c, from \<^verbatim>\<open>calloc\<close> in bfvm.c.\<close>

definition fresh_mem :: "prog \<Rightarrow> machine \<Rightarrow> byte list" where
  "fresh_mem p s = (case p of
       Bfin junk \<Rightarrow> map (junk (length (heap s))) [0..<nat (chunklen s)]
     | Bfvm \<Rightarrow> replicate (nat (chunklen s)) 0)"

text \<open>
  The chunk at address \<open>a\<close> is well linked: its block has \<open>chunklen\<close> bytes, and a
  neighbour it points to is allocated and points back.
\<close>

definition chunk_ok :: "int \<Rightarrow> memchunk list \<Rightarrow> addr \<Rightarrow> bool" where
  "chunk_ok cl h a \<longleftrightarrow>
     length (mem (h ! a)) = nat cl \<and>
     (case nxt (h ! a) of
        None \<Rightarrow> True
      | Some n \<Rightarrow> n < length h \<and> prev (h ! n) = Some a) \<and>
     (case prev (h ! a) of
        None \<Rightarrow> True
      | Some q \<Rightarrow> q < length h \<and> nxt (h ! q) = Some a)"

text \<open>
  The state \<^verbatim>\<open>execute\<close> expects (its precondition "tape state already initialized"):
  chunks have a positive length, \<^verbatim>\<open>page\<close> is an allocated chunk, \<^verbatim>\<open>data\<close> points
  into its block, and every chunk is well linked.
\<close>

definition wf :: "machine \<Rightarrow> bool" where
  "wf s \<longleftrightarrow>
     0 < chunklen s \<and> page s < length (heap s) \<and> 0 \<le> data s \<and> data s < chunklen s \<and>
     list_all (chunk_ok (chunklen s) (heap s)) [0..<length (heap s)]"

text \<open>
  What the switch does to the globals for a character that is no bracket (the six
  tape cases, and no effect for any other character).
\<close>

definition effect :: "prog \<Rightarrow> char \<Rightarrow> machine \<Rightarrow> machine" where
  "effect p ch s =
     (if ch = CHR ''>'' then advance p s
      else if ch = CHR ''<'' then retreat p s
      else if ch = CHR ''+'' then assign (deref s + 1) s
      else if ch = CHR ''-'' then assign (deref s - 1) s
      else if ch = CHR ''.'' then putchar (deref s) s
      else if ch = CHR '','' then (let (v, s1) = getchar s in assign (word_of_int v) s1)
      else s)"

definition plain :: "char \<Rightarrow> bool" where
  "plain ch \<longleftrightarrow> ch \<noteq> CHR ''['' \<and> ch \<noteq> CHR '']'' \<and> ch \<noteq> CHR 0x00"

definition effects :: "prog \<Rightarrow> string \<Rightarrow> machine \<Rightarrow> machine" where
  "effects p ops s = foldl (\<lambda>t ch. effect p ch t) s ops"

text \<open>The net increment of a string of \<^verbatim>\<open>+\<close> and \<^verbatim>\<open>-\<close>.\<close>

definition net :: "string \<Rightarrow> int" where
  "net ops = int (count_list ops (CHR ''+'')) - int (count_list ops (CHR ''-''))"

text \<open>
  \<open>grown s t\<close>: from \<open>s\<close> to \<open>t\<close> the tape has only grown. The streams and the chunk
  length are the same, every chunk of \<open>s\<close> is still there with the same bytes, and a link
  that was set is still the same link.
\<close>

definition grown :: "machine \<Rightarrow> machine \<Rightarrow> bool" where
  "grown s t \<longleftrightarrow>
     chunklen t = chunklen s \<and> stdin t = stdin s \<and> stdout t = stdout s \<and>
     stderr t = stderr s \<and> length (heap s) \<le> length (heap t) \<and>
     list_all (\<lambda>a. mem (heap t ! a) = mem (heap s ! a) \<and>
                    (nxt (heap s ! a) = None \<or> nxt (heap t ! a) = nxt (heap s ! a)) \<and>
                    (prev (heap s ! a) = None \<or> prev (heap t ! a) = prev (heap s ! a)))
       [0..<length (heap s)]"

text \<open>
  An outcome and a step with the diagnostics wiped, to compare the two programs up to
  the wording of their messages.
\<close>

definition hush :: "outcome \<times> machine \<Rightarrow> outcome \<times> machine" where
  "hush y = (fst y, (snd y)\<lparr>stderr := []\<rparr>)"

definition hush_flow :: "flow \<Rightarrow> flow" where
  "hush_flow f = (case f of Break c stack s \<Rightarrow> Break c stack s
                          | Stop r s \<Rightarrow> Stop r (s\<lparr>stderr := []\<rparr>))"





text \<open>
  Concrete inputs: \<^verbatim>\<open>malloc\<close> handing out zeroed blocks, \<^verbatim>\<open>malloc\<close> handing out a
  recycled block full of the letter A, and the state of bfvm after start-up on a
  system with 12-byte pages (chunks of 4 bytes, cursor in the middle).
\<close>

definition zero_junk :: "addr \<Rightarrow> nat \<Rightarrow> byte" where
  "zero_junk a i = 0"

definition stale_junk :: "addr \<Rightarrow> nat \<Rightarrow> byte" where
  "stale_junk a i = 65"

definition boot :: machine where
  "boot = init Bfvm 12 []"

text \<open>The start state with the cursor moved to the last byte of its chunk.\<close>

definition edge :: machine where
  "edge = boot\<lparr>data := 3\<rparr>"



section \<open>Lemmas\<close>

subsection \<open>Allocation and moves keep the chunks well linked\<close>

lemma wf_iff:
  "wf s \<longleftrightarrow> 0 < chunklen s \<and> page s < length (heap s) \<and> 0 \<le> data s \<and> data s < chunklen s \<and>
     (\<forall>a<length (heap s). chunk_ok (chunklen s) (heap s) a)"
  by (auto simp: wf_def list_all_iff)

lemma length_fresh_mem: "length (fresh_mem p s) = nat (chunklen s)"
  by (cases p) (simp_all add: fresh_mem_def)

lemma new_chunk_eq:
  "new_chunk p s = (length (heap s), s\<lparr>heap := heap s @ [\<lparr>nxt = None, prev = None, mem = fresh_mem p s\<rparr>]\<rparr>)"
  by (cases p) (simp_all add: alloc_memchunk_def init_memchunk_def fresh_mem_def Let_def)

lemma overflow_right_eq:
  "chunk < length (heap s) \<Longrightarrow>
   overflow_right p chunk s =
     (length (heap s),
      s\<lparr>heap := (heap s)[chunk := (heap s ! chunk)\<lparr>nxt := Some (length (heap s))\<rparr>]
                 @ [\<lparr>nxt = None, prev = Some chunk, mem = fresh_mem p s\<rparr>]\<rparr>)"
  by (simp add: overflow_right_def new_chunk_eq list_update_append nth_append)

lemma overflow_left_eq:
  "chunk < length (heap s) \<Longrightarrow>
   overflow_left p chunk s =
     (length (heap s),
      s\<lparr>heap := (heap s)[chunk := (heap s ! chunk)\<lparr>prev := Some (length (heap s))\<rparr>]
                 @ [\<lparr>nxt = Some chunk, prev = None, mem = fresh_mem p s\<rparr>]\<rparr>)"
  by (simp add: overflow_left_def new_chunk_eq list_update_append nth_append)

lemma advance_cases:
  assumes "page s < length (heap s)"
  shows "advance p s =
     (if data s + 1 < chunklen s then s\<lparr>data := data s + 1\<rparr>
      else case nxt (heap s ! page s) of
             Some n \<Rightarrow> s\<lparr>page := n, data := 0\<rparr>
           | None \<Rightarrow> s\<lparr>heap := (heap s)[page s := (heap s ! page s)\<lparr>nxt := Some (length (heap s))\<rparr>]
                                @ [\<lparr>nxt = None, prev = Some (page s), mem = fresh_mem p s\<rparr>],
                      page := length (heap s), data := 0\<rparr>)"
  using assms by (simp add: advance_def overflow_right_eq fresh_mem_def Let_def split: option.split prog.split)

lemma retreat_cases:
  assumes "page s < length (heap s)"
  shows "retreat p s =
     (if 0 \<le> data s - 1 then s\<lparr>data := data s - 1\<rparr>
      else case prev (heap s ! page s) of
             Some n \<Rightarrow> s\<lparr>page := n, data := chunklen s - 1\<rparr>
           | None \<Rightarrow> s\<lparr>heap := (heap s)[page s := (heap s ! page s)\<lparr>prev := Some (length (heap s))\<rparr>]
                                @ [\<lparr>nxt = Some (page s), prev = None, mem = fresh_mem p s\<rparr>],
                      page := length (heap s), data := chunklen s - 1\<rparr>)"
  using assms by (simp add: retreat_def overflow_left_eq fresh_mem_def Let_def split: option.split prog.split)

lemma chunk_ok_grow_right:
  assumes ok: "\<forall>a<length (heap s). chunk_ok (chunklen s) (heap s) a"
    and pg: "pg < length (heap s)"
    and nx: "nxt (heap s ! pg) = None"
    and len: "length m = nat (chunklen s)"
    and h': "heap s' = (heap s)[pg := (heap s ! pg)\<lparr>nxt := Some (length (heap s))\<rparr>]
                        @ [\<lparr>nxt = None, prev = Some pg, mem = m\<rparr>]"
    and cl: "chunklen s' = chunklen s"
  shows "\<forall>a<length (heap s'). chunk_ok (chunklen s') (heap s') a"
proof (intro allI impI)
  fix a
  assume "a < length (heap s')"
  then have "a = length (heap s) \<or> a = pg \<or> (a < length (heap s) \<and> a \<noteq> pg)"
    by (simp add: h') linarith
  then consider "a = length (heap s)" | "a = pg" | "a < length (heap s)" "a \<noteq> pg"
    by blast
  then show "chunk_ok (chunklen s') (heap s') a"
  proof cases
    case 1
    then show ?thesis
      using pg len by (simp add: chunk_ok_def h' cl nth_append)
  next
    case 2
    from ok pg have "chunk_ok (chunklen s) (heap s) pg" by simp
    then show ?thesis
      using 2 pg nx
      by (auto simp add: chunk_ok_def h' cl nth_append nth_list_update split: option.splits)
  next
    case 3
    from ok 3 have "chunk_ok (chunklen s) (heap s) a" by simp
    then show ?thesis
      using 3 pg nx
      by (auto simp add: chunk_ok_def h' cl nth_append nth_list_update split: option.splits)
  qed
qed

lemma chunk_ok_grow_left:
  assumes ok: "\<forall>a<length (heap s). chunk_ok (chunklen s) (heap s) a"
    and pg: "pg < length (heap s)"
    and nx: "prev (heap s ! pg) = None"
    and len: "length m = nat (chunklen s)"
    and h': "heap s' = (heap s)[pg := (heap s ! pg)\<lparr>prev := Some (length (heap s))\<rparr>]
                        @ [\<lparr>nxt = Some pg, prev = None, mem = m\<rparr>]"
    and cl: "chunklen s' = chunklen s"
  shows "\<forall>a<length (heap s'). chunk_ok (chunklen s') (heap s') a"
proof (intro allI impI)
  fix a
  assume "a < length (heap s')"
  then have "a = length (heap s) \<or> a = pg \<or> (a < length (heap s) \<and> a \<noteq> pg)"
    by (simp add: h') linarith
  then consider "a = length (heap s)" | "a = pg" | "a < length (heap s)" "a \<noteq> pg"
    by blast
  then show "chunk_ok (chunklen s') (heap s') a"
  proof cases
    case 1
    then show ?thesis
      using pg len by (simp add: chunk_ok_def h' cl nth_append)
  next
    case 2
    from ok pg have "chunk_ok (chunklen s) (heap s) pg" by simp
    then show ?thesis
      using 2 pg nx
      by (auto simp add: chunk_ok_def h' cl nth_append nth_list_update split: option.splits)
  next
    case 3
    from ok 3 have "chunk_ok (chunklen s) (heap s) a" by simp
    then show ?thesis
      using 3 pg nx
      by (auto simp add: chunk_ok_def h' cl nth_append nth_list_update split: option.splits)
  qed
qed

lemma advance_wf: "wf s \<Longrightarrow> wf (advance p s)"
proof -
  assume w: "wf s"
  then have pg: "page s < length (heap s)" and ok: "\<forall>a<length (heap s). chunk_ok (chunklen s) (heap s) a"
    by (simp_all add: wf_iff)
  from ok pg have cpg: "chunk_ok (chunklen s) (heap s) (page s)" by simp
  show ?thesis
  proof (cases "data s + 1 < chunklen s")
    case True
    then show ?thesis using w by (simp add: advance_cases wf_iff)
  next
    case far: False
    show ?thesis
    proof (cases "nxt (heap s ! page s)")
      case (Some n)
      then have "n < length (heap s)" using cpg by (simp add: chunk_ok_def)
      then show ?thesis using w far Some by (simp add: advance_cases wf_iff)
    next
      case None
      let ?s' = "advance p s"
      have h': "heap ?s' = (heap s)[page s := (heap s ! page s)\<lparr>nxt := Some (length (heap s))\<rparr>]
                        @ [\<lparr>nxt = None, prev = Some (page s), mem = fresh_mem p s\<rparr>]"
        and cl: "chunklen ?s' = chunklen s" and pg': "page ?s' = length (heap s)"
        and d': "data ?s' = 0"
        using far None pg by (simp_all add: advance_cases)
      have "\<forall>a<length (heap ?s'). chunk_ok (chunklen ?s') (heap ?s') a"
        by (rule chunk_ok_grow_right [OF ok pg None length_fresh_mem h' cl])
      then show ?thesis using w by (simp add: wf_iff cl pg' d' h')
    qed
  qed
qed

lemma retreat_wf: "wf s \<Longrightarrow> wf (retreat p s)"
proof -
  assume w: "wf s"
  then have pg: "page s < length (heap s)" and ok: "\<forall>a<length (heap s). chunk_ok (chunklen s) (heap s) a"
    by (simp_all add: wf_iff)
  from ok pg have cpg: "chunk_ok (chunklen s) (heap s) (page s)" by simp
  show ?thesis
  proof (cases "0 \<le> data s - 1")
    case True
    then show ?thesis using w by (simp add: retreat_cases wf_iff)
  next
    case far: False
    show ?thesis
    proof (cases "prev (heap s ! page s)")
      case (Some n)
      then have "n < length (heap s)" using cpg by (simp add: chunk_ok_def)
      then show ?thesis using w far Some by (simp add: retreat_cases wf_iff)
    next
      case None
      let ?s' = "retreat p s"
      have h': "heap ?s' = (heap s)[page s := (heap s ! page s)\<lparr>prev := Some (length (heap s))\<rparr>]
                        @ [\<lparr>nxt = Some (page s), prev = None, mem = fresh_mem p s\<rparr>]"
        and cl: "chunklen ?s' = chunklen s" and pg': "page ?s' = length (heap s)"
        and d': "data ?s' = chunklen s - 1"
        using far None pg by (simp_all add: retreat_cases)
      have "\<forall>a<length (heap ?s'). chunk_ok (chunklen ?s') (heap ?s') a"
        by (rule chunk_ok_grow_left [OF ok pg None length_fresh_mem h' cl])
      then show ?thesis using w by (simp add: wf_iff cl pg' d' h')
    qed
  qed
qed

subsection \<open>Running characters that are no brackets\<close>

lemma effects_Nil [simp]: "effects p [] s = s"
  by (simp add: effects_def)

lemma effects_Cons [simp]: "effects p (ch # ops) s = effects p ops (effect p ch s)"
  by (simp add: effects_def)

lemma effects_append: "effects p (xs @ ys) s = effects p ys (effects p xs s)"
  by (simp add: effects_def)

lemma execute_switch_plain:
  "plain (char_at line c) \<Longrightarrow>
   execute_switch p line c stack s = Break c stack (effect p (char_at line c) s)"
  by (simp add: execute_switch_def effect_def plain_def Let_def split: prod.split)

lemma drop_eq_ConsD:
  assumes "drop c line = x # xs"
  shows "c < length line" and "line ! c = x" and "drop (Suc c) line = xs"
proof -
  show c: "c < length line" using assms by (cases "c < length line") simp_all
  from Cons_nth_drop_Suc [OF c] assms show "line ! c = x" and "drop (Suc c) line = xs"
    by simp_all
qed

lemma execute_loop_end:
  "length line \<le> c \<Longrightarrow> execute_loop p line c stack s = Some (Returned, s)"
  by (subst execute_loop.simps) (simp add: char_at_def)

lemma execute_loop_plain:
  "drop c line = ops @ rest \<Longrightarrow> \<forall>ch\<in>set ops. plain ch \<Longrightarrow>
   execute_loop p line c stack s = execute_loop p line (c + length ops) stack (effects p ops s)"
proof (induction ops arbitrary: c s)
  case Nil
  then show ?case by simp
next
  case (Cons x xs)
  from Cons.prems(1) have d: "drop c line = x # (xs @ rest)" by simp
  note c = drop_eq_ConsD [OF d]
  have at: "char_at line c = x" using c by (simp add: char_at_def)
  have px: "plain x" using Cons.prems(2) by simp
  then have nz: "x \<noteq> CHR 0x00" by (simp add: plain_def)
  have "execute_loop p line c stack s = execute_loop p line (c + 1) stack (effect p x s)"
    using px nz by (subst execute_loop.simps) (simp add: at execute_switch_plain)
  also have "\<dots> = execute_loop p line (c + 1 + length xs) stack (effects p xs (effect p x s))"
    using Cons.IH [of "c + 1" "effect p x s"] c(3) Cons.prems(2) by simp
  finally show ?case by simp
qed

lemma execute_plain:
  assumes "\<forall>ch\<in>set ops. plain ch"
  shows "execute p (Some ops) s = Some (Returned, effects p ops s)"
proof -
  have "execute_loop p ops 0 [] s = execute_loop p ops (0 + length ops) [] (effects p ops s)"
    by (rule execute_loop_plain [where rest = "[]"]) (use assms in simp_all)
  then show ?thesis by (simp add: execute_def execute_loop_end)
qed

subsection \<open>The byte under the cursor\<close>

lemma assign_fields [simp]:
  "page (assign v s) = page s" "data (assign v s) = data s" "chunklen (assign v s) = chunklen s"
  "stdin (assign v s) = stdin s" "stdout (assign v s) = stdout s" "stderr (assign v s) = stderr s"
  "length (heap (assign v s)) = length (heap s)"
  by (simp_all add: assign_def)

lemma wf_cursor:
  assumes "wf s"
  shows "page s < length (heap s)" and "nat (data s) < length (mem (heap s ! page s))"
    and "0 \<le> data s" and "data s < chunklen s"
proof -
  from assms show pg: "page s < length (heap s)" and "0 \<le> data s" and d: "data s < chunklen s"
    by (simp_all add: wf_iff)
  from assms pg have "chunk_ok (chunklen s) (heap s) (page s)" by (simp add: wf_iff)
  then have "length (mem (heap s ! page s)) = nat (chunklen s)" by (simp add: chunk_ok_def)
  with d assms show "nat (data s) < length (mem (heap s ! page s))" by (simp add: wf_iff)
qed

lemma deref_assign: "wf s \<Longrightarrow> deref (assign v s) = v"
  using wf_cursor [of s] by (simp add: deref_def assign_def)

lemma assign_assign: "wf s \<Longrightarrow> assign v (assign w s) = assign v s"
  using wf_cursor [of s] by (simp add: assign_def)

lemma assign_deref: "assign (deref s) s = s"
  by (simp add: assign_def deref_def)

lemma chunk_ok_assign:
  assumes "chunk_ok cl h a" and "a < length h" and "pg < length h"
  shows "chunk_ok cl (h[pg := (h ! pg)\<lparr>mem := (mem (h ! pg))[i := v]\<rparr>]) a"
  using assms by (auto simp add: chunk_ok_def nth_list_update split: option.splits)

lemma assign_wf: "wf s \<Longrightarrow> wf (assign v s)"
  unfolding wf_iff by (simp add: chunk_ok_assign) (simp add: assign_def chunk_ok_assign)

subsection \<open>Increments, decrements and the clearing loop\<close>

lemma boot_eq:
  "boot = \<lparr>chunklen = 4, heap = [\<lparr>nxt = None, prev = None, mem = [0, 0, 0, 0]\<rparr>],
           page = 0, data = 2, stdin = [], stdout = [], stderr = []\<rparr>"
  by (simp add: boot_def init_def margin_def init_memchunk_def Let_def eval_nat_numeral
      signed_divide_int_def)

lemma wf_boot: "wf boot"
  by (simp add: boot_eq wf_def chunk_ok_def)

lemma net_simps [simp]:
  "net [] = 0"
  "net (CHR ''+'' # ops) = net ops + 1"
  "net (CHR ''-'' # ops) = net ops - 1"
  by (simp_all add: net_def)

lemma effects_plus_minus:
  "wf s \<Longrightarrow> set ops \<subseteq> {CHR ''+'', CHR ''-''} \<Longrightarrow>
   effects p ops s = assign (deref s + word_of_int (net ops)) s"
proof (induction ops arbitrary: s)
  case Nil
  then show ?case by (simp add: assign_deref)
next
  case (Cons x xs)
  from Cons.prems(2) consider "x = CHR ''+''" | "x = CHR ''-''" by auto
  then show ?case
  proof cases
    case 1
    let ?s1 = "assign (deref s + 1) s"
    have "effects p (x # xs) s = effects p xs ?s1" using 1 by (simp add: effect_def)
    also have "\<dots> = assign (deref ?s1 + word_of_int (net xs)) ?s1"
      using Cons.prems by (intro Cons.IH assign_wf) simp_all
    also have "\<dots> = assign (deref s + word_of_int (net (x # xs))) s"
      using Cons.prems(1) 1 by (simp add: deref_assign assign_assign ac_simps)
    finally show ?thesis .
  next
    case 2
    let ?s1 = "assign (deref s - 1) s"
    have "effects p (x # xs) s = effects p xs ?s1" using 2 by (simp add: effect_def)
    also have "\<dots> = assign (deref ?s1 + word_of_int (net xs)) ?s1"
      using Cons.prems by (intro Cons.IH assign_wf) simp_all
    also have "\<dots> = assign (deref s + word_of_int (net (x # xs))) s"
      using Cons.prems(1) 2 by (simp add: deref_assign assign_assign algebra_simps)
    finally show ?thesis .
  qed
qed

lemma uint_add_of_int: "uint ((b :: byte) + word_of_int n) = (uint b + n) mod 256"
proof -
  have "b + word_of_int n = word_of_int (uint b + n)" by simp
  then show ?thesis by (simp only: uint_word_of_int) simp
qed

lemma byte_256: "(256 :: byte) = 0"
  by simp

lemma byte_255: "(- 1 :: byte) = 255"
  by simp

lemma match_clear: "match_right ''[-]'' 0 = Some 2"
  by (simp add: match_right_def match_scan.simps char_at_def)

lemma clear_body:
  "wf s \<Longrightarrow> deref s \<noteq> 0 \<Longrightarrow> execute_loop p ''[-]'' 1 [0] s = Some (Returned, assign 0 s)"
proof (induction "unat (deref s)" arbitrary: s rule: less_induct)
  case less
  let ?s1 = "assign (deref s - 1) s"
  have w1: "wf ?s1" using less.prems(1) by (rule assign_wf)
  have d1: "deref ?s1 = deref s - 1" using less.prems(1) by (rule deref_assign)
  have step: "execute_loop p ''[-]'' 1 [0] s = execute_loop p ''[-]'' 2 [0] ?s1"
    by (subst execute_loop.simps) (simp add: char_at_def execute_switch_def eval_nat_numeral)
  show ?case
  proof (cases "deref s - 1 = 0")
    case True
    have "execute_loop p ''[-]'' 2 [0] ?s1 = execute_loop p ''[-]'' 3 [] ?s1"
      using True d1 by (subst execute_loop.simps) (simp add: char_at_def execute_switch_def pop_jump_def eval_nat_numeral)
    also have "\<dots> = Some (Returned, ?s1)" by (simp add: execute_loop_end)
    finally show ?thesis using step True by simp
  next
    case False
    have "execute_loop p ''[-]'' 2 [0] ?s1 = execute_loop p ''[-]'' 1 [0] ?s1"
      using False d1 by (subst execute_loop.simps) (simp add: char_at_def execute_switch_def eval_nat_numeral)
    also have "\<dots> = Some (Returned, assign 0 ?s1)"
    proof (rule less.hyps [OF _ w1])
      show "unat (deref ?s1) < unat (deref s)"
        using less.prems(2) by (simp add: d1 unat_minus_one unat_gt_0)
      show "deref ?s1 \<noteq> 0" using False d1 by simp
    qed
    finally show ?thesis using step less.prems(1) by (simp add: assign_assign)
  qed
qed

subsection \<open>Brackets\<close>

lemma match_scan_plain:
  "drop c line = ops \<Longrightarrow> \<forall>ch\<in>set ops. plain ch \<Longrightarrow> match_scan line c count = None"
proof (induction ops arbitrary: c)
  case Nil
  then show ?case by (subst match_scan.simps) (simp add: char_at_def)
next
  case (Cons x xs)
  note c = drop_eq_ConsD [OF Cons.prems(1)]
  have at: "char_at line c = x" using c by (simp add: char_at_def)
  have "plain x" using Cons.prems(2) by simp
  then have "match_scan line c count = match_scan line (c + 1) count"
    by (subst match_scan.simps) (simp add: at plain_def)
  then show ?case using Cons.IH [of "c + 1"] c(3) Cons.prems(2) by simp
qed

lemma execute_loop_left:
  assumes "char_at line c = CHR ''[''"
  shows "execute_loop p line c stack s =
     (if deref s = 0 then
        (case match_right line c of
           None \<Rightarrow> Some (Abandoned, report (no_right_msg p) s)
         | Some r \<Rightarrow> execute_loop p line (r + 1) stack s)
      else
        (case match_right line c of
           None \<Rightarrow> execute_loop p line (c + 1) stack s
         | Some r \<Rightarrow> execute_loop p line (c + 1) (c # stack) s))"
  by (subst execute_loop.simps)
     (simp add: assms execute_switch_def push_jump_def split: option.split)

lemma execute_loop_left_unmatched:
  assumes at: "char_at line c = CHR ''[''" and nz: "deref s \<noteq> 0"
    and pl: "\<forall>ch\<in>set tail. plain ch" and line: "line = take c line @ CHR ''['' # tail"
  shows "match_right line c = None"
    and "execute_loop p line c stack s = Some (Returned, effects p tail s)"
proof -
  from at have cl: "c < length line" by (auto simp: char_at_def split: if_splits)
  from line have "drop c line = drop c (take c line @ CHR ''['' # tail)" by simp
  also have "\<dots> = CHR ''['' # tail" using cl by simp
  finally have d: "drop (c + 1) line = tail" using drop_eq_ConsD(3) by simp
  show none: "match_right line c = None"
    unfolding match_right_def using d pl by (intro match_scan_plain [of _ _ tail]) simp_all
  from d have "length line - (c + 1) = length tail" by (metis length_drop)
  with cl have len: "length line = c + 1 + length tail" by simp
  have "execute_loop p line c stack s = execute_loop p line (c + 1) stack s"
    using at nz none by (simp add: execute_loop_left)
  also have "\<dots> = execute_loop p line (c + 1 + length tail) stack (effects p tail s)"
    using d pl by (intro execute_loop_plain [where rest = "[]"]) simp_all
  also have "\<dots> = Some (Returned, effects p tail s)"
    using len by (simp add: execute_loop_end)
  finally show "execute_loop p line c stack s = Some (Returned, effects p tail s)" .
qed

lemma boot_one_wf: "wf (assign 1 boot)"
  by (simp add: assign_wf wf_boot)

lemma effect_one_plus: "effect p (CHR ''+'') (assign 1 boot) = assign 2 boot"
  by (simp add: effect_def deref_assign assign_assign wf_boot)

lemma effects_one_plus: "effects p ''+'' (assign 1 boot) = assign 2 boot"
  by (simp add: effect_one_plus)

lemma execute_loop_right_empty:
  assumes "char_at line c = CHR '']''"
  shows "execute_loop p line c [] s =
     (if deref s \<noteq> 0 then Some (Abandoned, report (no_left_msg p) s) else Some (Crashed, s))"
  by (subst execute_loop.simps) (simp add: assms execute_switch_def pop_jump_def)

subsection \<open>New chunks\<close>

lemma init_memchunk_zeroed:
  "mem (heap (snd (init_memchunk s)) ! fst (init_memchunk s)) = replicate (nat (chunklen s)) 0"
  by (simp add: init_memchunk_def Let_def)

lemma alloc_memchunk_junk:
  "mem (heap (snd (alloc_memchunk junk s)) ! fst (alloc_memchunk junk s))
     = map (junk (length (heap s))) [0..<nat (chunklen s)]"
  by (simp add: alloc_memchunk_def Let_def)

subsection \<open>The forward scan against the nesting counter\<close>











subsection \<open>The invariant along a run\<close>

lemma putchar_wf: "wf s \<Longrightarrow> wf (putchar b s)"
  by (simp add: wf_def putchar_def)

lemma stdin_update_wf: "wf s \<Longrightarrow> wf (s\<lparr>stdin := i\<rparr>)"
  by (simp add: wf_def)

lemma report_wf: "wf s \<Longrightarrow> wf (report msg s)"
  by (simp add: wf_def report_def)

lemma effect_wf: "wf s \<Longrightarrow> wf (effect p ch s)"
  by (auto simp add: effect_def advance_wf retreat_wf assign_wf putchar_wf getchar_def
      stdin_update_wf split: list.split)

lemma effects_wf: "wf s \<Longrightarrow> wf (effects p ops s)"
  by (induction ops arbitrary: s) (simp_all add: effect_wf)

lemma execute_switch_wf:
  assumes "wf s"
  shows "execute_switch p line c stack s = Break c' stack' s' \<Longrightarrow> wf s'"
    and "execute_switch p line c stack s = Stop r s' \<Longrightarrow> wf s'"
  using assms
  by (auto simp add: execute_switch_def Let_def advance_wf retreat_wf assign_wf putchar_wf
      getchar_def stdin_update_wf report_wf
      split: if_splits option.splits list.splits)

lemma execute_loop_wf:
  assumes run: "execute_loop p line c stack s = Some y"
  shows "wf s \<longrightarrow> wf (snd y)"
proof (rule execute_loop.raw_induct
    [where P = "\<lambda>p line c stack s y. wf s \<longrightarrow> wf (snd y)", OF _ run], goal_cases)
  case (1 loop p line c stack s y)
  show ?case
  proof
    assume w: "wf s"
    show "wf (snd y)"
    proof (cases "char_at line c = CHR 0x00")
      case True
      with 1(2) w show ?thesis by auto
    next
      case False
      show ?thesis
      proof (cases "execute_switch p line c stack s")
        case (Break c' stack' s')
        with 1(2) False have "loop p line (c' + 1) stack' s' = Some y" by simp
        moreover have "wf s'" using execute_switch_wf(1) [OF w Break] .
        ultimately show ?thesis using 1(1) by blast
      next
        case (Stop r s')
        with 1(2) False have "y = (r, s')" by simp
        then show ?thesis using execute_switch_wf(2) [OF w Stop] by simp
      qed
    qed
  qed
qed

lemma wf_block: "wf s \<Longrightarrow> length (mem (heap s ! page s)) = nat (chunklen s)"
  by (simp add: wf_iff chunk_ok_def)

lemma effect_chunklen: "wf s \<Longrightarrow> chunklen (effect p ch s) = chunklen s"
  by (auto simp add: effect_def advance_cases retreat_cases wf_cursor putchar_def getchar_def
      split: option.split list.split)

lemma wf_chunk_ok: "wf s \<Longrightarrow> a < length (heap s) \<Longrightarrow> chunk_ok (chunklen s) (heap s) a"
  by (simp add: wf_iff)

lemma advance_near:
  "wf s \<Longrightarrow> data s + 1 < chunklen s \<Longrightarrow> advance p s = s\<lparr>data := data s + 1\<rparr>"
  by (simp add: advance_cases wf_cursor)

lemma retreat_near:
  "wf s \<Longrightarrow> 0 < data s \<Longrightarrow> retreat p s = s\<lparr>data := data s - 1\<rparr>"
  by (simp add: retreat_cases wf_cursor)

lemma advance_far:
  assumes w: "wf s" and far: "\<not> data s + 1 < chunklen s"
  shows "data (advance p s) = 0" and "chunklen (advance p s) = chunklen s"
    and "page (advance p s) < length (heap (advance p s))"
    and "prev (heap (advance p s) ! page (advance p s)) = Some (page s)"
    and "nxt (heap (advance p s) ! page s) = Some (page (advance p s))"
    and "case nxt (heap s ! page s) of
           Some n \<Rightarrow> advance p s = s\<lparr>page := n, data := 0\<rparr>
         | None \<Rightarrow> page (advance p s) = length (heap s)
                   \<and> length (heap (advance p s)) = length (heap s) + 1"
proof -
  note pg = wf_cursor(1) [OF w]
  note ok = wf_chunk_ok [OF w pg]
  show "data (advance p s) = 0" and "chunklen (advance p s) = chunklen s"
    using far pg by (simp_all add: advance_cases split: option.split)
  show "page (advance p s) < length (heap (advance p s))"
    using far pg ok by (auto simp add: advance_cases chunk_ok_def split: option.splits)
  show "prev (heap (advance p s) ! page (advance p s)) = Some (page s)"
    using far pg ok by (auto simp add: advance_cases chunk_ok_def nth_append split: option.splits)
  show "nxt (heap (advance p s) ! page s) = Some (page (advance p s))"
    using far pg ok by (auto simp add: advance_cases chunk_ok_def nth_append split: option.splits)
  show "case nxt (heap s ! page s) of
           Some n \<Rightarrow> advance p s = s\<lparr>page := n, data := 0\<rparr>
         | None \<Rightarrow> page (advance p s) = length (heap s)
                   \<and> length (heap (advance p s)) = length (heap s) + 1"
    using far pg by (simp add: advance_cases split: option.split)
qed

lemma retreat_far:
  assumes w: "wf s" and far: "\<not> 0 < data s"
  shows "data (retreat p s) = chunklen s - 1" and "chunklen (retreat p s) = chunklen s"
    and "page (retreat p s) < length (heap (retreat p s))"
    and "nxt (heap (retreat p s) ! page (retreat p s)) = Some (page s)"
    and "prev (heap (retreat p s) ! page s) = Some (page (retreat p s))"
    and "case prev (heap s ! page s) of
           Some n \<Rightarrow> retreat p s = s\<lparr>page := n, data := chunklen s - 1\<rparr>
         | None \<Rightarrow> page (retreat p s) = length (heap s)
                   \<and> length (heap (retreat p s)) = length (heap s) + 1"
proof -
  note pg = wf_cursor(1) [OF w]
  note ok = wf_chunk_ok [OF w pg]
  show "data (retreat p s) = chunklen s - 1" and "chunklen (retreat p s) = chunklen s"
    using far pg by (simp_all add: retreat_cases split: option.split)
  show "page (retreat p s) < length (heap (retreat p s))"
    using far pg ok by (auto simp add: retreat_cases chunk_ok_def split: option.splits)
  show "nxt (heap (retreat p s) ! page (retreat p s)) = Some (page s)"
    using far pg ok by (auto simp add: retreat_cases chunk_ok_def nth_append split: option.splits)
  show "prev (heap (retreat p s) ! page s) = Some (page (retreat p s))"
    using far pg ok by (auto simp add: retreat_cases chunk_ok_def nth_append split: option.splits)
  show "case prev (heap s ! page s) of
           Some n \<Rightarrow> retreat p s = s\<lparr>page := n, data := chunklen s - 1\<rparr>
         | None \<Rightarrow> page (retreat p s) = length (heap s)
                   \<and> length (heap (retreat p s)) = length (heap s) + 1"
    using far pg by (simp add: retreat_cases split: option.split)
qed

lemma wf_edge: "wf edge"
  by (simp add: edge_def boot_eq wf_def chunk_ok_def)

subsection \<open>Moves only grow the tape\<close>

lemma grown_iff:
  "grown s t \<longleftrightarrow>
     chunklen t = chunklen s \<and> stdin t = stdin s \<and> stdout t = stdout s \<and>
     stderr t = stderr s \<and> length (heap s) \<le> length (heap t) \<and>
     (\<forall>a<length (heap s). mem (heap t ! a) = mem (heap s ! a) \<and>
                    (nxt (heap s ! a) = None \<or> nxt (heap t ! a) = nxt (heap s ! a)) \<and>
                    (prev (heap s ! a) = None \<or> prev (heap t ! a) = prev (heap s ! a)))"
  by (auto simp: grown_def list_all_iff)

lemma grown_refl: "grown s s"
  by (simp add: grown_iff)

lemma grown_trans:
  assumes "grown s t" and "grown t u"
  shows "grown s u"
proof -
  have "mem (heap u ! a) = mem (heap s ! a) \<and>
        (nxt (heap s ! a) = None \<or> nxt (heap u ! a) = nxt (heap s ! a)) \<and>
        (prev (heap s ! a) = None \<or> prev (heap u ! a) = prev (heap s ! a))"
    if a: "a < length (heap s)" for a
  proof -
    from a assms(1) have at: "a < length (heap t)" by (simp add: grown_iff)
    from assms(1) a have 1: "mem (heap t ! a) = mem (heap s ! a)"
      "nxt (heap s ! a) = None \<or> nxt (heap t ! a) = nxt (heap s ! a)"
      "prev (heap s ! a) = None \<or> prev (heap t ! a) = prev (heap s ! a)"
      by (simp_all add: grown_iff)
    from assms(2) at have 2: "mem (heap u ! a) = mem (heap t ! a)"
      "nxt (heap t ! a) = None \<or> nxt (heap u ! a) = nxt (heap t ! a)"
      "prev (heap t ! a) = None \<or> prev (heap u ! a) = prev (heap t ! a)"
      by (simp_all add: grown_iff)
    from 1 2 show ?thesis by auto
  qed
  then show ?thesis using assms by (simp add: grown_iff)
qed

lemma advance_grown: "wf s \<Longrightarrow> grown s (advance p s)"
  by (auto simp add: grown_iff advance_cases wf_cursor nth_append nth_list_update
      split: option.splits)

lemma retreat_grown: "wf s \<Longrightarrow> grown s (retreat p s)"
  by (auto simp add: grown_iff retreat_cases wf_cursor nth_append nth_list_update
      split: option.splits)

lemma moves_grown:
  "wf s \<Longrightarrow> set ops \<subseteq> {CHR ''>'', CHR ''<''} \<Longrightarrow> grown s (effects p ops s)"
proof (induction ops arbitrary: s)
  case Nil
  then show ?case by (simp add: grown_refl)
next
  case (Cons x xs)
  have 1: "grown s (effect p x s)"
    using Cons.prems by (auto simp add: effect_def advance_grown retreat_grown)
  have 2: "grown (effect p x s) (effects p xs (effect p x s))"
    using Cons.prems by (intro Cons.IH effect_wf) auto
  from grown_trans [OF 1 2] show ?case by simp
qed

lemma grown_prev:
  "grown s t \<Longrightarrow> a < length (heap s) \<Longrightarrow> prev (heap s ! a) = Some q \<Longrightarrow>
   prev (heap t ! a) = Some q"
  by (auto simp add: grown_iff)

lemma grown_nxt:
  "grown s t \<Longrightarrow> a < length (heap s) \<Longrightarrow> nxt (heap s ! a) = Some q \<Longrightarrow>
   nxt (heap t ! a) = Some q"
  by (auto simp add: grown_iff)

lemma grown_chunklen: "grown s t \<Longrightarrow> chunklen t = chunklen s"
  by (simp add: grown_iff)

lemma back_from_right:
  assumes w: "wf s" and wt: "wf t" and g: "grown (advance p s) t"
    and pg: "page t = page (advance p s)" and d: "data t = data (advance p s)"
  shows "page (retreat p t) = page s \<and> data (retreat p t) = data s"
proof (cases "data s + 1 < chunklen s")
  case True
  then have "advance p s = s\<lparr>data := data s + 1\<rparr>" using w by (rule advance_near [rotated])
  with pg d have "page t = page s" "data t = data s + 1" by simp_all
  moreover have "0 < data t" using \<open>data t = data s + 1\<close> wf_cursor(3) [OF w] by simp
  ultimately show ?thesis using retreat_near [OF wt] by simp
next
  case False
  note far = advance_far [OF w False, of p]
  have "prev (heap t ! page t) = Some (page s)"
    unfolding pg by (rule grown_prev [OF g far(3) far(4)])
  moreover have "data t = 0" using d far(1) by simp
  moreover have "chunklen t = chunklen s" using grown_chunklen [OF g] far(2) by simp
  moreover have "data s = chunklen s - 1" using False wf_cursor(4) [OF w] by simp
  ultimately show ?thesis using wf_cursor(1) [OF wt] by (simp add: retreat_cases)
qed

lemma back_from_left:
  assumes w: "wf s" and wt: "wf t" and g: "grown (retreat p s) t"
    and pg: "page t = page (retreat p s)" and d: "data t = data (retreat p s)"
  shows "page (advance p t) = page s \<and> data (advance p t) = data s"
proof (cases "0 < data s")
  case True
  then have "retreat p s = s\<lparr>data := data s - 1\<rparr>" using w by (rule retreat_near [rotated])
  with pg d have "page t = page s" "data t = data s - 1" by simp_all
  moreover have "data t + 1 < chunklen t"
    using \<open>data t = data s - 1\<close> wf_cursor(4) [OF w] grown_chunklen [OF g]
      \<open>retreat p s = s\<lparr>data := data s - 1\<rparr>\<close> by simp
  ultimately show ?thesis using advance_near [OF wt] by simp
next
  case False
  note far = retreat_far [OF w False, of p]
  have "nxt (heap t ! page t) = Some (page s)"
    unfolding pg by (rule grown_nxt [OF g far(3) far(4)])
  moreover have "chunklen t = chunklen s" using grown_chunklen [OF g] far(2) by simp
  moreover have "data t = chunklen s - 1" using d far(1) by simp
  moreover have "data s = 0" using False wf_cursor(3) [OF w] by simp
  ultimately show ?thesis using wf_cursor(1) [OF wt] by (simp add: advance_cases)
qed

lemma effects_snoc: "effects p (ops @ [ch]) s = effect p ch (effects p ops s)"
  by (simp add: effects_append)

lemma there_and_back:
  assumes "wf s"
  shows "page (effects p (replicate k (CHR ''>'') @ replicate k (CHR ''<'')) s) = page s
       \<and> data (effects p (replicate k (CHR ''>'') @ replicate k (CHR ''<'')) s) = data s"
    and "page (effects p (replicate k (CHR ''<'') @ replicate k (CHR ''>'')) s) = page s
       \<and> data (effects p (replicate k (CHR ''<'') @ replicate k (CHR ''>'')) s) = data s"
  using assms
proof (induction k arbitrary: s)
  case 0
  case 1 show ?case by simp
  case 2 show ?case by simp
next
  case (Suc k)
  {
    case 1
    let ?mid = "replicate k (CHR ''>'') @ replicate k (CHR ''<'')"
    let ?s1 = "advance p s"
    let ?t = "effects p ?mid ?s1"
    have split: "replicate (Suc k) (CHR ''>'') @ replicate (Suc k) (CHR ''<'')
                 = CHR ''>'' # (?mid @ [CHR ''<''])"
      by (simp add: replicate_append_same)
    have w1: "wf ?s1" using 1 by (rule advance_wf)
    have wt: "wf ?t" using w1 by (rule effects_wf)
    have g: "grown ?s1 ?t" using w1 by (rule moves_grown) auto
    have "page ?t = page ?s1 \<and> data ?t = data ?s1" using Suc.IH(1) [OF w1] .
    then have "page (retreat p ?t) = page s \<and> data (retreat p ?t) = data s"
      using back_from_right [OF 1 wt g] by simp
    moreover have "effects p (CHR ''>'' # (?mid @ [CHR ''<''])) s = retreat p ?t"
      by (simp only: effects_Cons effects_snoc) (simp add: effect_def)
    ultimately show ?case unfolding split by simp
  next
    case 2
    let ?mid = "replicate k (CHR ''<'') @ replicate k (CHR ''>'')"
    let ?s1 = "retreat p s"
    let ?t = "effects p ?mid ?s1"
    have split: "replicate (Suc k) (CHR ''<'') @ replicate (Suc k) (CHR ''>'')
                 = CHR ''<'' # (?mid @ [CHR ''>''])"
      by (simp add: replicate_append_same)
    have w1: "wf ?s1" using 2 by (rule retreat_wf)
    have wt: "wf ?t" using w1 by (rule effects_wf)
    have g: "grown ?s1 ?t" using w1 by (rule moves_grown) auto
    have "page ?t = page ?s1 \<and> data ?t = data ?s1" using Suc.IH(2) [OF w1] .
    then have "page (advance p ?t) = page s \<and> data (advance p ?t) = data s"
      using back_from_left [OF 2 wt g] by simp
    moreover have "effects p (CHR ''<'' # (?mid @ [CHR ''>''])) s = advance p ?t"
      by (simp only: effects_Cons effects_snoc) (simp add: effect_def)
    ultimately show ?case unfolding split by simp
  }
qed

lemma grown_deref:
  assumes "grown s t" and "wf s" and "page t = page s" and "data t = data s"
  shows "deref t = deref s"
  using assms wf_cursor(1) [OF assms(2)] by (simp add: grown_iff deref_def)

lemma round_trip:
  assumes w: "wf s"
    and dir: "(a, b) \<in> {(CHR ''>'', CHR ''<''), (CHR ''<'', CHR ''>'')}"
  shows "page (effects p (replicate k a @ replicate k b) s) = page s"
    and "data (effects p (replicate k a @ replicate k b) s) = data s"
    and "deref (effects p (replicate k a @ replicate k b) s) = deref s"
    and "grown s (effects p (replicate k a @ replicate k b) s)"
    and "wf (effects p (replicate k a @ replicate k b) s)"
proof -
  let ?t = "effects p (replicate k a @ replicate k b) s"
  show pg: "page ?t = page s" and d: "data ?t = data s"
    using dir there_and_back [OF w, of p k] by auto
  show g: "grown s ?t" using w dir by (intro moves_grown) auto
  show "deref ?t = deref s" using g w pg d by (rule grown_deref)
  show "wf ?t" using w by (rule effects_wf)
qed

lemma getchar_effect:
  "stdin s = i # rest \<Longrightarrow> effect p (CHR '','') s = assign i (s\<lparr>stdin := rest\<rparr>)"
  by (simp add: effect_def getchar_def)

subsection \<open>The two programs on zeroed blocks\<close>

lemma new_chunk_zero_junk: "new_chunk (Bfin zero_junk) = new_chunk Bfvm"
proof
  fix s :: machine
  have "map (zero_junk (length (heap s))) [0..<nat (chunklen s)] = replicate (nat (chunklen s)) 0"
    by (simp add: map_replicate_const zero_junk_def [abs_def])
  then show "new_chunk (Bfin zero_junk) s = new_chunk Bfvm s"
    by (simp add: alloc_memchunk_def init_memchunk_def)
qed

lemma moves_same:
  assumes "new_chunk p = new_chunk q"
  shows "advance p s = advance q s" and "retreat p s = retreat q s"
proof -
  have r: "overflow_right p = overflow_right q"
    by (intro ext) (simp add: overflow_right_def assms)
  have l: "overflow_left p = overflow_left q"
    by (intro ext) (simp add: overflow_left_def assms)
  show "advance p s = advance q s" unfolding advance_def r by (rule refl)
  show "retreat p s = retreat q s" unfolding retreat_def l by (rule refl)
qed

lemma execute_switch_same:
  assumes "new_chunk p = new_chunk q"
  shows "hush_flow (execute_switch q line c stack s) = hush_flow (execute_switch p line c stack s)"
  by (simp add: execute_switch_def hush_flow_def Let_def moves_same [OF assms] report_def
      split: prod.split option.split list.split)

lemma execute_loop_same:
  assumes run: "execute_loop p line c stack s = Some y"
  shows "\<forall>q. new_chunk p = new_chunk q \<longrightarrow>
           (\<exists>y'. execute_loop q line c stack s = Some y' \<and> hush y' = hush y)"
proof (rule execute_loop.raw_induct
    [where P = "\<lambda>p line c stack s y. \<forall>q. new_chunk p = new_chunk q \<longrightarrow>
           (\<exists>y'. execute_loop q line c stack s = Some y' \<and> hush y' = hush y)", OF _ run],
    goal_cases)
  case (1 loop p line c stack s y)
  show ?case
  proof (intro allI impI)
    fix q
    assume same: "new_chunk p = new_chunk q"
    note sw = execute_switch_same [OF same, of line c stack s]
    show "\<exists>y'. execute_loop q line c stack s = Some y' \<and> hush y' = hush y"
    proof (cases "char_at line c = CHR 0x00")
      case True
      with 1(2) have "y = (Returned, s)" by simp
      moreover have "execute_loop q line c stack s = Some (Returned, s)"
        using True by (subst execute_loop.simps) simp
      ultimately show ?thesis by simp
    next
      case False
      show ?thesis
      proof (cases "execute_switch p line c stack s")
        case (Break c' stack' s')
        with sw have q: "execute_switch q line c stack s = Break c' stack' s'"
          by (cases "execute_switch q line c stack s") (simp_all add: hush_flow_def)
        from 1(2) False Break have "loop p line (c' + 1) stack' s' = Some y" by simp
        from 1(1) [OF this] same obtain y'
          where "execute_loop q line (c' + 1) stack' s' = Some y'" "hush y' = hush y" by blast
        moreover have "execute_loop q line c stack s = execute_loop q line (c' + 1) stack' s'"
          using False q by (subst execute_loop.simps) simp
        ultimately show ?thesis by simp
      next
        case (Stop r s')
        with sw obtain t where q: "execute_switch q line c stack s = Stop r t"
          and t: "t\<lparr>stderr := []\<rparr> = s'\<lparr>stderr := []\<rparr>"
          by (cases "execute_switch q line c stack s") (simp_all add: hush_flow_def)
        from 1(2) False Stop have "y = (r, s')" by simp
        moreover have "execute_loop q line c stack s = Some (r, t)"
          using False q by (subst execute_loop.simps) simp
        ultimately show ?thesis using t by (simp add: hush_def)
      qed
    qed
  qed
qed

lemma engines_agree_on_zeroed_blocks:
  "map_option hush (execute (Bfin zero_junk) line s) = map_option hush (execute Bfvm line s)"
proof (cases line)
  case None
  then show ?thesis by (simp add: execute_def)
next
  case (Some l)
  note ab = execute_loop_same [of "Bfin zero_junk" l 0 "[]" s, rule_format, OF _ new_chunk_zero_junk]
  note ba = execute_loop_same [of Bfvm l 0 "[]" s, rule_format, OF _ new_chunk_zero_junk [symmetric]]
  show ?thesis
  proof (cases "execute_loop (Bfin zero_junk) l 0 [] s")
    case a: None
    have "execute_loop Bfvm l 0 [] s = None"
    proof (cases "execute_loop Bfvm l 0 [] s")
      case (Some y)
      from ba [OF Some] a show ?thesis by simp
    qed simp
    with a Some show ?thesis by (simp add: execute_def)
  next
    case a: (Some y)
    from ab [OF a] Some a show ?thesis by (auto simp add: execute_def)
  qed
qed

lemma wf_init:
  assumes "0 < pagesize" and "pagesize \<noteq> margin p"
  shows "wf (init p pagesize input)"
proof -
  have half: "0 \<le> cl sdiv 2 \<and> cl sdiv 2 < cl" if "0 < cl" for cl :: int
    using that by (simp add: signed_divide_int_def sgn_if)
  show ?thesis
    using assms half [of pagesize] half [of "pagesize - margin p"]
    by (auto simp add: init_def new_chunk_eq wf_def chunk_ok_def length_fresh_mem Let_def)
qed

section \<open>The claims\<close>

subsection \<open>C1: a left bracket with no match, on a non-zero byte\<close>

text \<open>
  Claim C1 says that a \<^verbatim>\<open>[\<close> reached on a non-zero byte with no matching \<^verbatim>\<open>]\<close>
  after it ends the call with a diagnostic. The code tests \<^verbatim>\<open>right != NULL\<close> only to
  decide whether to push (\<^verbatim>\<open>else if (right != NULL) stack = push_jump(stack, c);\<close>) and
  reports the missing bracket only when it must jump, that is on a zero byte. On the
  program \<^verbatim>\<open>[+\<close> with the byte at 1, both programs return normally with the byte at 2
  and nothing on standard error: the \<^verbatim>\<open>+\<close> after the bracket has run.
\<close>

theorem left_bracket_counterexample:
  "char_at ''[+'' 0 = CHR ''['' \<and> deref (assign 1 boot) \<noteq> 0 \<and> match_right ''[+'' 0 = None
   \<and> execute Bfvm (Some ''[+'') (assign 1 boot) = Some (Returned, assign 2 boot)
   \<and> execute (Bfin zero_junk) (Some ''[+'') (assign 1 boot) = Some (Returned, assign 2 boot)
   \<and> stderr (assign 2 boot) = []"
proof -
  have at: "char_at ''[+'' 0 = CHR ''[''" by (simp add: char_at_def)
  have nz: "deref (assign 1 boot) \<noteq> 0" by (simp add: deref_assign wf_boot)
  have pl: "\<forall>ch\<in>set ''+''. plain ch" by (simp add: plain_def)
  have line: "''[+'' = take 0 ''[+'' @ CHR ''['' # ''+''" by simp
  note run = execute_loop_left_unmatched [OF at nz pl line]
  have "stderr (assign 2 boot) = []" by (simp add: boot_eq)
  with at nz run show ?thesis by (simp add: execute_def effect_one_plus)
qed

text \<open>
  Claim C1 as amended. When a \<^verbatim>\<open>[\<close> is reached on a non-zero byte:
  if no matching \<^verbatim>\<open>]\<close> exists, nothing is reported and nothing is pushed, and the loop
  goes on at the next character with the same stack and state; if a match exists, the
  position of the \<^verbatim>\<open>[\<close> is pushed and the loop goes on at the next character. In
  particular, when only characters that are no brackets follow the \<^verbatim>\<open>[\<close>, there is no
  match and the call returns normally after running them all. A \<^verbatim>\<open>[\<close> with no match
  is reported, and the call abandoned, when it is reached on a zero byte.
\<close>

theorem left_bracket_cases:
  assumes "char_at line c = CHR ''[''"
  shows "(deref s \<noteq> 0 \<and> match_right line c = None \<longrightarrow>
            execute_switch p line c stack s = Break c stack s \<and>
            execute_loop p line c stack s = execute_loop p line (c + 1) stack s)
       \<and> (deref s \<noteq> 0 \<and> match_right line c \<noteq> None \<longrightarrow>
            execute_switch p line c stack s = Break c (c # stack) s \<and>
            execute_loop p line c stack s = execute_loop p line (c + 1) (c # stack) s)
       \<and> (deref s \<noteq> 0 \<and> (\<forall>ch\<in>set tail. plain ch) \<and> line = take c line @ CHR ''['' # tail \<longrightarrow>
            match_right line c = None \<and>
            execute_loop p line c stack s = Some (Returned, effects p tail s))
       \<and> (deref s = 0 \<and> match_right line c = None \<longrightarrow>
            execute_switch p line c stack s = Stop Abandoned (report (no_right_msg p) s) \<and>
            execute_loop p line c stack s = Some (Abandoned, report (no_right_msg p) s))"
proof (intro conjI impI)
  show "execute_switch p line c stack s = Break c stack s"
    if "deref s \<noteq> 0 \<and> match_right line c = None"
    using assms that by (simp add: execute_switch_def)
  show "execute_loop p line c stack s = execute_loop p line (c + 1) stack s"
    if "deref s \<noteq> 0 \<and> match_right line c = None"
    using assms that by (simp add: execute_loop_left)
  show "execute_switch p line c stack s = Break c (c # stack) s"
    if "deref s \<noteq> 0 \<and> match_right line c \<noteq> None"
    using assms that by (auto simp add: execute_switch_def push_jump_def)
  show "execute_loop p line c stack s = execute_loop p line (c + 1) (c # stack) s"
    if "deref s \<noteq> 0 \<and> match_right line c \<noteq> None"
    using assms that by (auto simp add: execute_loop_left)
  show "match_right line c = None"
    if "deref s \<noteq> 0 \<and> (\<forall>ch\<in>set tail. plain ch) \<and> line = take c line @ CHR ''['' # tail"
    using execute_loop_left_unmatched(1) [OF assms, of s tail] that by simp
  show "execute_loop p line c stack s = Some (Returned, effects p tail s)"
    if "deref s \<noteq> 0 \<and> (\<forall>ch\<in>set tail. plain ch) \<and> line = take c line @ CHR ''['' # tail"
    using execute_loop_left_unmatched(2) [OF assms, of s tail] that by simp
  show "execute_switch p line c stack s = Stop Abandoned (report (no_right_msg p) s)"
    if "deref s = 0 \<and> match_right line c = None"
    using assms that by (simp add: execute_switch_def)
  show "execute_loop p line c stack s = Some (Abandoned, report (no_right_msg p) s)"
    if "deref s = 0 \<and> match_right line c = None"
    using assms that by (simp add: execute_loop_left)
qed

text \<open>
  The theorem at the \<^verbatim>\<open>[\<close> of \<^verbatim>\<open>+[+\<close>, with the byte at 1 and with the byte at 0.
\<close>

theorem left_bracket_cases_witness:
  "match_right ''+[+'' 1 = None
   \<and> execute_loop Bfvm ''+[+'' 1 [] (assign 1 boot) = Some (Returned, assign 2 boot)
   \<and> execute_loop Bfvm ''+[+'' 1 [] boot = Some (Abandoned, report (no_right_msg Bfvm) boot)"
proof -
  have at: "char_at ''+[+'' 1 = CHR ''[''" by (simp add: char_at_def)
  have nz: "deref (assign 1 boot) \<noteq> 0" by (simp add: deref_assign wf_boot)
  have z: "deref boot = 0" by (simp add: boot_eq deref_def)
  have tl: "(\<forall>ch\<in>set ''+''. plain ch) \<and> ''+[+'' = take 1 ''+[+'' @ CHR ''['' # ''+''"
    by (simp add: plain_def)
  note one = left_bracket_cases
    [OF at, where s = "assign 1 boot" and tail = "''+''" and p = Bfvm and stack = "[]"]
  note zero = left_bracket_cases
    [OF at, where s = boot and tail = "''+''" and p = Bfvm and stack = "[]"]
  from one nz tl have a: "match_right ''+[+'' 1 = None"
    and b: "execute_loop Bfvm ''+[+'' 1 [] (assign 1 boot)
            = Some (Returned, effects Bfvm ''+'' (assign 1 boot))" by blast+
  from zero z a
  have c: "execute_loop Bfvm ''+[+'' 1 [] boot = Some (Abandoned, report (no_right_msg Bfvm) boot)"
    by blast
  from a b c show ?thesis by (simp only: effects_one_plus)
qed

subsection \<open>C2: a right bracket on an empty jump stack\<close>

text \<open>
  Claim C2 says that a \<^verbatim>\<open>]\<close> reached with an empty jump stack is reported and the call
  abandoned, whether the byte is zero or not. The code does so on a non-zero byte (third
  conjunct). On a zero byte it calls \<^verbatim>\<open>pop_jump(stack)\<close> with \<^verbatim>\<open>stack == NULL\<close>, which
  fails \<^verbatim>\<open>assert(stack != NULL)\<close> in bfin.c and reads \<^verbatim>\<open>stack->next\<close> through
  \<^verbatim>\<open>NULL\<close> in bfvm.c: the program \<^verbatim>\<open>]\<close> on the start state kills the process.
\<close>

theorem right_bracket_zero_crash:
  "execute Bfvm (Some '']'') boot = Some (Crashed, boot)
   \<and> execute (Bfin zero_junk) (Some '']'') boot = Some (Crashed, boot)
   \<and> execute Bfvm (Some '']'') (assign 1 boot)
       = Some (Abandoned, report (no_left_msg Bfvm) (assign 1 boot))"
  by (simp add: execute_def execute_loop_right_empty char_at_def deref_assign wf_boot)
     (simp add: boot_eq deref_def)

subsection \<open>C3: the bytes of a new chunk\<close>

text \<open>
  Claim C3 says that every byte of a newly allocated chunk reads 0. That holds for
  bfvm.c (\<^verbatim>\<open>calloc\<close>, lemma \<open>init_memchunk_zeroed\<close>). bfin.c takes the block from
  \<^verbatim>\<open>malloc\<close>, whose bytes are whatever the allocator hands out (lemma
  \<open>alloc_memchunk_junk\<close>): when it recycles a block full of the letter A, the chunk
  bfin adds on the right holds 65 everywhere, and \<^verbatim>\<open>>>.\<close> from the start state prints
  65 from a byte never written.
\<close>

theorem bfin_fresh_chunk_not_zeroed:
  "new_chunk (Bfin stale_junk) boot
     = (1, boot\<lparr>heap := heap boot @ [\<lparr>nxt = None, prev = None, mem = [65, 65, 65, 65]\<rparr>]\<rparr>)
   \<and> new_chunk Bfvm boot
     = (1, boot\<lparr>heap := heap boot @ [\<lparr>nxt = None, prev = None, mem = [0, 0, 0, 0]\<rparr>]\<rparr>)
   \<and> map_option (\<lambda>r. stdout (snd r)) (execute (Bfin stale_junk) (Some ''>>.'') boot) = Some [65]"
  by code_simp

subsection \<open>C4: bfin against bfvm\<close>

text \<open>
  Claim C4 says that the two engines produce the same output, tape and error outcome
  on every string, tape and input. From the same start state the program \<^verbatim>\<open>>>.\<close>
  prints 65 in bfin (when \<^verbatim>\<open>malloc\<close> recycles a block full of the letter A) and 0 in
  bfvm, and leaves different tapes. The allocator is the only cause: when \<^verbatim>\<open>malloc\<close>
  hands out zeroed blocks the two engines agree on every input up to the wording of
  the diagnostics (lemma \<open>engines_agree_on_zeroed_blocks\<close>).
\<close>

theorem engines_differ:
  "execute (Bfin stale_junk) (Some ''>>.'') boot =
     Some (Returned,
       \<lparr>chunklen = 4,
        heap = [\<lparr>nxt = Some 1, prev = None, mem = [0, 0, 0, 0]\<rparr>,
                \<lparr>nxt = None, prev = Some 0, mem = [65, 65, 65, 65]\<rparr>],
        page = 1, data = 0, stdin = [], stdout = [65], stderr = []\<rparr>)
   \<and> execute Bfvm (Some ''>>.'') boot =
     Some (Returned,
       \<lparr>chunklen = 4,
        heap = [\<lparr>nxt = Some 1, prev = None, mem = [0, 0, 0, 0]\<rparr>,
                \<lparr>nxt = None, prev = Some 0, mem = [0, 0, 0, 0]\<rparr>],
        page = 1, data = 0, stdin = [], stdout = [0], stderr = []\<rparr>)"
  by code_simp

subsection \<open>C5: a run of increments and decrements\<close>

text \<open>
  Claim C5. A program made only of \<^verbatim>\<open>+\<close> and \<^verbatim>\<open>-\<close>, run on an initialised tape,
  returns normally and leaves under the cursor the initial byte plus the net increment
  \<open>n\<close> (increments minus decrements) modulo 256, for bfin and for bfvm. In particular
  \<^verbatim>\<open>+\<close> on 255 gives 0 and \<^verbatim>\<open>-\<close> on 0 gives 255, and neither is an error.
\<close>

theorem plus_minus_wraps:
  assumes "wf s" and "set ops \<subseteq> {CHR ''+'', CHR ''-''}"
  shows "execute p (Some ops) s = Some (Returned, assign (deref s + word_of_int (net ops)) s)
       \<and> uint (deref (assign (deref s + word_of_int (net ops)) s)) = (uint (deref s) + net ops) mod 256
       \<and> (deref s = 255 \<longrightarrow> execute p (Some ''+'') s = Some (Returned, assign 0 s))
       \<and> (deref s = 0 \<longrightarrow> execute p (Some ''-'') s = Some (Returned, assign 255 s))"
proof (intro conjI impI)
  have pl: "\<forall>ch\<in>set ops. plain ch" using assms(2) by (auto simp: plain_def)
  show "execute p (Some ops) s = Some (Returned, assign (deref s + word_of_int (net ops)) s)"
    using assms by (simp add: execute_plain [OF pl] effects_plus_minus)
  show "uint (deref (assign (deref s + word_of_int (net ops)) s)) = (uint (deref s) + net ops) mod 256"
    using assms(1) by (simp only: deref_assign uint_add_of_int)
  show "execute p (Some ''+'') s = Some (Returned, assign 0 s)" if "deref s = 255"
    using that by (simp add: execute_plain plain_def effect_def byte_256)
  show "execute p (Some ''-'') s = Some (Returned, assign 255 s)" if "deref s = 0"
    using that by (simp add: execute_plain plain_def effect_def byte_255)
qed

text \<open>The theorem at \<^verbatim>\<open>+-++\<close> on a cell holding 254: the cell wraps to 0.\<close>

theorem plus_minus_wraps_witness:
  "execute Bfvm (Some ''+-++'') (assign 254 boot) = Some (Returned, assign 0 boot)
   \<and> uint (deref (assign 0 boot)) = (254 + 2) mod 256"
  using plus_minus_wraps [of "assign 254 boot" "''+-++''" Bfvm]
  by (simp add: assign_wf wf_boot deref_assign assign_assign byte_256)

subsection \<open>C6: the clearing loop\<close>

text \<open>
  Claim C6. The program \<^verbatim>\<open>[-]\<close>, run on an initialised tape, returns for every value
  of the current byte and leaves it 0 (and changes nothing else). When the byte is 0
  already, the \<^verbatim>\<open>[\<close> sets the instruction pointer to the \<^verbatim>\<open>]\<close> at index 2, so the
  \<^verbatim>\<open>-\<close> at index 1 is never executed, and the state is unchanged.
\<close>

theorem clear_loop:
  assumes "wf s"
  shows "execute p (Some ''[-]'') s = Some (Returned, assign 0 s)
       \<and> deref (assign 0 s) = 0
       \<and> (deref s = 0 \<longrightarrow> execute_switch p ''[-]'' 0 [] s = Break 2 [] s \<and> assign 0 s = s)"
proof (intro conjI impI)
  show "deref (assign 0 s) = 0" using assms by (rule deref_assign)
  show sw: "execute_switch p ''[-]'' 0 [] s = Break 2 [] s" if "deref s = 0"
    using that by (simp add: execute_switch_def char_at_def match_clear)
  show id: "assign 0 s = s" if "deref s = 0"
    using assign_deref [of s] that by simp
  show "execute p (Some ''[-]'') s = Some (Returned, assign 0 s)"
  proof (cases "deref s = 0")
    case True
    have "execute_loop p ''[-]'' 0 [] s = execute_loop p ''[-]'' 3 [] s"
      by (subst execute_loop.simps) (simp add: sw [OF True] char_at_def eval_nat_numeral)
    then show ?thesis using id [OF True] by (simp add: execute_def execute_loop_end)
  next
    case False
    have "execute_loop p ''[-]'' 0 [] s = execute_loop p ''[-]'' 1 [0] s"
      using False
      by (subst execute_loop.simps) (simp add: execute_switch_def char_at_def match_clear push_jump_def)
    then show ?thesis using clear_body [OF assms False] by (simp add: execute_def)
  qed
qed

text \<open>The theorem on a cell holding 200, and on the zero cell of the start state.\<close>

theorem clear_loop_witness:
  "execute Bfvm (Some ''[-]'') (assign 200 boot) = Some (Returned, boot) \<and> deref boot = 0
   \<and> execute_switch Bfvm ''[-]'' 0 [] boot = Break 2 [] boot"
  using clear_loop [of "assign 200 boot" Bfvm] clear_loop [of boot Bfvm]
  by (simp add: assign_wf wf_boot deref_assign assign_assign) (simp add: boot_eq deref_def)

subsection \<open>C7: the forward scan\<close>




subsection \<open>C8: moving away and back\<close>

text \<open>
  Claim C8. A program made only of \<^verbatim>\<open>>\<close> and \<^verbatim>\<open><\<close>, run on an initialised tape,
  returns normally, writes nothing, and leaves the bytes of every chunk that existed as
  they were; so when it ends on the chunk and offset where it started, the byte under
  the cursor is the one that was there, and a byte \<open>v\<close> written there before the moves
  is read back as \<open>v\<close>. Moving \<open>k\<close> times one way and \<open>k\<close> times back (for every \<open>k\<close>,
  so across any number of chunk boundaries and newly allocated chunks, to the right or
  to the left) does end where it started, with \<open>v\<close> under the cursor; and the program
  that reads a byte with \<^verbatim>\<open>,\<close>, makes that trip and prints with \<^verbatim>\<open>.\<close> prints the byte
  it read.
\<close>

theorem moves_round_trip:
  assumes "wf s" and "set ops \<subseteq> {CHR ''>'', CHR ''<''}"
    and "(a, b) \<in> {(CHR ''>'', CHR ''<''), (CHR ''<'', CHR ''>'')}"
  shows "execute p (Some ops) s = Some (Returned, effects p ops s)
       \<and> wf (effects p ops s)
       \<and> stdout (effects p ops s) = stdout s
       \<and> (\<forall>c<length (heap s). mem (heap (effects p ops s) ! c) = mem (heap s ! c))
       \<and> (page (effects p ops s) = page s \<and> data (effects p ops s) = data s \<longrightarrow>
            deref (effects p ops s) = deref s)
       \<and> (page (effects p ops (assign v s)) = page s \<and> data (effects p ops (assign v s)) = data s
            \<longrightarrow> deref (effects p ops (assign v s)) = v)
       \<and> execute p (Some (replicate k a @ replicate k b)) (assign v s)
            = Some (Returned, effects p (replicate k a @ replicate k b) (assign v s))
       \<and> page (effects p (replicate k a @ replicate k b) (assign v s)) = page s
       \<and> data (effects p (replicate k a @ replicate k b) (assign v s)) = data s
       \<and> deref (effects p (replicate k a @ replicate k b) (assign v s)) = v
       \<and> (stdin s = i # rest \<longrightarrow>
            (\<exists>t. execute p (Some ('','' @ replicate k a @ replicate k b @ ''.'')) s
                   = Some (Returned, t)
                 \<and> stdout t = stdout s @ [i] \<and> page t = page s \<and> data t = data s))"
proof -
  let ?far = "replicate k a @ replicate k b"
  have pl: "\<forall>ch\<in>set ops. plain ch" using assms(2) by (auto simp: plain_def)
  have plfar: "\<forall>ch\<in>set ?far. plain ch" using assms(3) by (auto simp: plain_def)
  have g: "grown s (effects p ops s)" using assms(1,2) by (rule moves_grown)
  have wv: "wf (assign v s)" using assms(1) by (rule assign_wf)
  have gv: "grown (assign v s) (effects p ops (assign v s))" using wv assms(2) by (rule moves_grown)
  note rt = round_trip [OF wv assms(3), of p k]
  have 1: "execute p (Some ops) s = Some (Returned, effects p ops s)"
    by (rule execute_plain [OF pl])
  have 2: "wf (effects p ops s)" using assms(1) by (rule effects_wf)
  have 3: "stdout (effects p ops s) = stdout s" using g by (simp add: grown_iff)
  have 4: "\<forall>c<length (heap s). mem (heap (effects p ops s) ! c) = mem (heap s ! c)"
    using g by (simp add: grown_iff)
  have 5: "deref (effects p ops s) = deref s"
    if "page (effects p ops s) = page s \<and> data (effects p ops s) = data s"
    using grown_deref [OF g assms(1)] that by simp
  have 6: "deref (effects p ops (assign v s)) = v"
    if "page (effects p ops (assign v s)) = page s \<and> data (effects p ops (assign v s)) = data s"
    using grown_deref [OF gv wv] that deref_assign [OF assms(1)] by simp
  have 7: "execute p (Some ?far) (assign v s) = Some (Returned, effects p ?far (assign v s))"
    by (rule execute_plain [OF plfar])
  have 8: "page (effects p ?far (assign v s)) = page s" "data (effects p ?far (assign v s)) = data s"
    "deref (effects p ?far (assign v s)) = v"
    using rt(1,2,3) deref_assign [OF assms(1)] by simp_all
  have 9: "\<exists>t. execute p (Some ('','' @ replicate k a @ replicate k b @ ''.'')) s
                   = Some (Returned, t)
                 \<and> stdout t = stdout s @ [i] \<and> page t = page s \<and> data t = data s"
    if inp: "stdin s = i # rest"
  proof -
    let ?s1 = "s\<lparr>stdin := rest\<rparr>"
    let ?t = "effects p ?far (assign i ?s1)"
    have w1: "wf ?s1" using assms(1) by (rule stdin_update_wf)
    have wi: "wf (assign i ?s1)" using w1 by (rule assign_wf)
    note r = round_trip [OF wi assms(3), of p k]
    have plall: "\<forall>ch\<in>set ('','' @ replicate k a @ replicate k b @ ''.''). plain ch"
      using plfar by (auto simp: plain_def)
    have "effects p ('','' @ replicate k a @ replicate k b @ ''.'') s = effect p (CHR ''.'') ?t"
      using getchar_effect [OF inp, of p] by (simp add: effects_append)
    also have "\<dots> = putchar i ?t"
      using r(3) deref_assign [OF w1] by (simp add: effect_def)
    finally have e: "effects p ('','' @ replicate k a @ replicate k b @ ''.'') s = putchar i ?t" .
    have "stdout ?t = stdout s" using r(4) by (simp add: grown_iff)
    then have "stdout (putchar i ?t) = stdout s @ [i]" by (simp add: putchar_def)
    moreover have "page (putchar i ?t) = page s" "data (putchar i ?t) = data s"
      using r(1,2) by (simp_all add: putchar_def)
    ultimately show ?thesis using execute_plain [OF plall, of p s] e by simp
  qed
  show ?thesis using 1 2 3 4 5 6 7 8 9 by blast
qed

text \<open>
  The theorem from the start state with 7 written under the cursor: \<^verbatim>\<open>>><<<>\<close> crosses
  into a new chunk on the right and comes back, and so does the trip of length 6.
\<close>

theorem moves_round_trip_witness:
  "execute Bfvm (Some ''>><<<>'') (assign 7 boot)
     = Some (Returned, effects Bfvm ''>><<<>'' (assign 7 boot))
   \<and> length (heap (effects Bfvm ''>><<<>'' (assign 7 boot))) = 2
   \<and> page (effects Bfvm ''>><<<>'' (assign 7 boot)) = page (assign 7 boot)
   \<and> data (effects Bfvm ''>><<<>'' (assign 7 boot)) = data (assign 7 boot)
   \<and> deref (effects Bfvm ''>><<<>'' (assign 7 boot)) = 7
   \<and> deref (effects Bfvm (replicate 6 (CHR ''>'') @ replicate 6 (CHR ''<'')) (assign 7 boot)) = 7"
proof -
  have w: "wf (assign 7 boot)" using wf_boot by (rule assign_wf)
  have ops: "set ''>><<<>'' \<subseteq> {CHR ''>'', CHR ''<''}" by simp
  have dir: "(CHR ''>'', CHR ''<'') \<in> {(CHR ''>'', CHR ''<''), (CHR ''<'', CHR ''>'')}" by simp
  have pos: "page (effects Bfvm ''>><<<>'' (assign 7 boot)) = page (assign 7 boot)"
    "data (effects Bfvm ''>><<<>'' (assign 7 boot)) = data (assign 7 boot)"
    "length (heap (effects Bfvm ''>><<<>'' (assign 7 boot))) = 2"
    by code_simp+
  have v: "deref (assign 7 boot) = 7" "assign 7 (assign 7 boot) = assign 7 boot"
    using wf_boot by (simp_all add: deref_assign assign_assign)
  note t = moves_round_trip [OF w ops dir, of Bfvm 7 6, unfolded v]
  from t have a: "execute Bfvm (Some ''>><<<>'') (assign 7 boot)
     = Some (Returned, effects Bfvm ''>><<<>'' (assign 7 boot))" by blast
  from t pos(1,2) have b: "deref (effects Bfvm ''>><<<>'' (assign 7 boot)) = 7" by blast
  from t have c:
    "deref (effects Bfvm (replicate 6 (CHR ''>'') @ replicate 6 (CHR ''<'')) (assign 7 boot)) = 7"
    by blast
  from a b c pos show ?thesis by blast
qed

subsection \<open>C9: the cursor stays inside its chunk\<close>

text \<open>
  Claim C9. On an initialised tape each of the six tape instructions (\<^verbatim>\<open>> < + - . ,\<close>)
  leaves an initialised tape: the offset \<open>data\<close> satisfies \<open>0 \<le> data < chunklen\<close> and the
  block of \<open>page\<close> has \<open>chunklen\<close> bytes. \<^verbatim>\<open>>\<close> inside the chunk adds one to the
  offset; at the last byte it moves to offset 0 of the right neighbour, which is the
  existing one (the heap is unchanged) or, when there is none, a chunk allocated and
  linked both ways first. \<^verbatim>\<open><\<close> is symmetric, arriving at offset \<open>chunklen - 1\<close> of the
  left neighbour. Hence a whole call of \<^verbatim>\<open>execute\<close> that returns leaves an initialised
  tape.
\<close>

theorem cursor_stays_in_chunk:
  assumes "wf s"
    and "ch \<in> {CHR ''>'', CHR ''<'', CHR ''+'', CHR ''-'', CHR ''.'', CHR '',''}"
    and "char_at line c = ch"
  shows "execute_switch p line c stack s = Break c stack (effect p ch s)
       \<and> wf (effect p ch s)
       \<and> 0 \<le> data (effect p ch s) \<and> data (effect p ch s) < chunklen (effect p ch s)
       \<and> chunklen (effect p ch s) = chunklen s
       \<and> length (mem (heap (effect p ch s) ! page (effect p ch s))) = nat (chunklen s)
       \<and> (data s + 1 < chunklen s \<longrightarrow> advance p s = s\<lparr>data := data s + 1\<rparr>)
       \<and> (data s + 1 = chunklen s \<longrightarrow>
            data (advance p s) = 0 \<and>
            nxt (heap (advance p s) ! page s) = Some (page (advance p s)) \<and>
            prev (heap (advance p s) ! page (advance p s)) = Some (page s) \<and>
            (case nxt (heap s ! page s) of
               Some n \<Rightarrow> advance p s = s\<lparr>page := n, data := 0\<rparr>
             | None \<Rightarrow> page (advance p s) = length (heap s)
                       \<and> length (heap (advance p s)) = length (heap s) + 1))
       \<and> (0 < data s \<longrightarrow> retreat p s = s\<lparr>data := data s - 1\<rparr>)
       \<and> (data s = 0 \<longrightarrow>
            data (retreat p s) = chunklen s - 1 \<and>
            prev (heap (retreat p s) ! page s) = Some (page (retreat p s)) \<and>
            nxt (heap (retreat p s) ! page (retreat p s)) = Some (page s) \<and>
            (case prev (heap s ! page s) of
               Some n \<Rightarrow> retreat p s = s\<lparr>page := n, data := chunklen s - 1\<rparr>
             | None \<Rightarrow> page (retreat p s) = length (heap s)
                       \<and> length (heap (retreat p s)) = length (heap s) + 1))
       \<and> (execute p l s = Some (r, s') \<longrightarrow> wf s')"
proof -
  have pl: "plain (char_at line c)" using assms(2,3) by (auto simp: plain_def)
  have sw: "execute_switch p line c stack s = Break c stack (effect p ch s)"
    using execute_switch_plain [OF pl] assms(3) by simp
  have w': "wf (effect p ch s)" using assms(1) by (rule effect_wf)
  have cl: "chunklen (effect p ch s) = chunklen s" using assms(1) by (rule effect_chunklen)
  have run: "wf s'" if "execute p l s = Some (r, s')"
  proof (cases l)
    case None
    with that assms(1) show ?thesis by (simp add: execute_def)
  next
    case (Some str)
    with that have "execute_loop p str 0 [] s = Some (r, s')" by (simp add: execute_def)
    from execute_loop_wf [OF this] assms(1) show ?thesis by simp
  qed
  have far_r: "\<not> data s + 1 < chunklen s" if "data s + 1 = chunklen s" using that by simp
  have far_l: "\<not> 0 < data s" if "data s = 0" using that by simp
  show ?thesis
    using sw w' cl wf_cursor(3,4) [OF w'] wf_block [OF w'] run
      advance_near [OF assms(1)] retreat_near [OF assms(1)]
      advance_far [OF assms(1) far_r] retreat_far [OF assms(1) far_l]
    by (simp add: cl)
qed

text \<open>The theorem for \<^verbatim>\<open>>\<close> at the last byte of the only chunk: a chunk is added.\<close>

theorem cursor_stays_in_chunk_witness:
  "execute_switch Bfvm ''>'' 0 [] edge = Break 0 [] (effect Bfvm (CHR ''>'') edge)
   \<and> wf (effect Bfvm (CHR ''>'') edge)
   \<and> data (effect Bfvm (CHR ''>'') edge) = 0
   \<and> page (effect Bfvm (CHR ''>'') edge) = 1"
proof -
  have a: "CHR ''>'' \<in> {CHR ''>'', CHR ''<'', CHR ''+'', CHR ''-'', CHR ''.'', CHR '',''}"
    by simp
  have b: "char_at ''>'' 0 = CHR ''>''" by (simp add: char_at_def)
  have c: "data (effect Bfvm (CHR ''>'') edge) = 0" "page (effect Bfvm (CHR ''>'') edge) = 1"
    by code_simp+
  from cursor_stays_in_chunk [OF wf_edge a b, of Bfvm "[]"] c show ?thesis by simp
qed

subsection \<open>C10: the null program\<close>

text \<open>
  Claim C10. \<^verbatim>\<open>execute(NULL)\<close> returns at once: the tape, the cursor, the three
  streams (so no output byte and no diagnostic) and every other part of the state are
  as before, in bfin and in bfvm.
\<close>

theorem execute_null: "execute p None s = Some (Returned, s)"
  by (simp add: execute_def)

end
